theory Spec2Isabelle
  imports Main "HOL-Library.Word" "HOL-Library.Signed_Division"
begin

unbundle bit_operations_syntax

section \<open>Native words and the word arithmetic helpers of runtime.h\<close>

text \<open>
  \<open>size_t\<close> is a word of \<open>LENGTH('a)\<close> bits. runtime.h provides for a \<open>sizeof(size_t)\<close> of
  4 and of 8 (the macros \<open>RN_SIZET_MASK\<close> and \<open>RN_SIZET_SHIFT\<close>), that is for 32-bit and
  64-bit words; the theorems below assume one of the two. \<open>uint64_t\<close> and \<open>uint32_t\<close> have
  their fixed widths. All arithmetic on these types wraps, as unsigned arithmetic does in C.
\<close>

type_synonym uint64_t = "64 word"
type_synonym uint32_t = "32 word"

definition sizeof_size_t :: "'a::len itself \<Rightarrow> nat" where
  "sizeof_size_t w = LENGTH('a) div 8"

text \<open>The largest value of \<open>size_t\<close>.\<close>

definition SIZE_MAX :: "'a::len word" where
  "SIZE_MAX = - 1"

text \<open>
  The macros \<open>RN_SIZET_MASK\<close> and \<open>RN_SIZET_SHIFT\<close>, with their three branches on
  \<open>sizeof(size_t)\<close>; the last branch is \<open>UINT32_MAX\<close>.
\<close>

definition RN_SIZET_MASK :: "'a::len itself \<Rightarrow> uint32_t" where
  "RN_SIZET_MASK w =
     (if sizeof_size_t w = 4 then 3 else if sizeof_size_t w = 8 then 7 else - 1)"

definition RN_SIZET_SHIFT :: "'a::len itself \<Rightarrow> uint32_t" where
  "RN_SIZET_SHIFT w =
     (if sizeof_size_t w = 4 then 2 else if sizeof_size_t w = 8 then 3 else - 1)"

text \<open>
  Failures. \<open>runtime_throwExceptionCstr\<close> does not return to its caller: it raises the
  catchable exception carrying the formatted message. DivideByZero is the failure the
  specification names for division, whose body is not part of runtime.h.
\<close>

datatype runtime_error =
    Exception string
  | DivideByZero

text \<open>
  \<open>runtime_bytesToWords\<close>: \<open>(numBytes + sizeof(size_t) - 1) >> RN_SIZET_SHIFT\<close>, computed in
  \<open>size_t\<close> and returned as a \<open>uint64_t\<close>.
\<close>

definition runtime_bytesToWords :: "'a::len word \<Rightarrow> uint64_t" where
  "runtime_bytesToWords numBytes =
     ucast (drop_bit (unat (RN_SIZET_SHIFT TYPE('a)))
              (numBytes + word_of_nat (sizeof_size_t TYPE('a)) - 1))"

text \<open>
  \<open>runtime_multCheckForOverflow\<close>: the product is computed first (wrapping), the fast path
  returns it when \<open>a\<close> is zero or both operands have a zero upper half, and otherwise the
  division check decides between the exception and the product. The shift distance
  \<open>sizeof(size_t) << 2\<close> is half the number of bits of \<open>size_t\<close>.
\<close>

definition runtime_multCheckForOverflow ::
    "'a::len word \<Rightarrow> 'a word \<Rightarrow> runtime_error + uint64_t" where
  "runtime_multCheckForOverflow a b =
     (let res = a * b in
      if a = 0 \<or>
         (drop_bit (push_bit 2 (sizeof_size_t TYPE('a))) a = 0
          \<and> drop_bit (push_bit 2 (sizeof_size_t TYPE('a))) b = 0)
      then Inr (ucast res)
      else if res div a \<noteq> b then Inl (Exception ''Integer overflow'')
      else Inr (ucast res))"

text \<open>\<open>runtime_addCheckForOverflow\<close>: the wrapped sum is below an operand exactly on overflow.\<close>

definition runtime_addCheckForOverflow ::
    "'a::len word \<Rightarrow> 'a word \<Rightarrow> runtime_error + 'a word" where
  "runtime_addCheckForOverflow a b =
     (let sum = a + b in
      if sum < a \<or> sum < b then Inl (Exception ''Integer overflow'') else Inr sum)"


section \<open>Word memory\<close>

text \<open>
  \<open>runtime_copyWords\<close> and \<open>runtime_zeroMemory\<close> walk word-aligned pointers. Memory is a
  store from word addresses (the byte address divided by the word size) to words; a pointer
  increment moves to the next address. The loops run \<open>numWords\<close> times: \<open>numWords--\<close>
  counts an unsigned value down to zero.
\<close>

type_synonym 'a memory = "nat \<Rightarrow> 'a word"

fun copyWords_loop :: "'a memory \<Rightarrow> nat \<Rightarrow> nat \<Rightarrow> nat \<Rightarrow> 'a memory" where
  "copyWords_loop mem dest src 0 = mem"
| "copyWords_loop mem dest src (Suc n) =
     copyWords_loop (mem(dest := mem src)) (Suc dest) (Suc src) n"

definition runtime_copyWords ::
    "('a::len) memory \<Rightarrow> nat \<Rightarrow> nat \<Rightarrow> 'a word \<Rightarrow> 'a memory" where
  "runtime_copyWords mem dest src numWords = copyWords_loop mem dest src (unat numWords)"

fun zeroMemory_loop :: "('a::len) memory \<Rightarrow> nat \<Rightarrow> nat \<Rightarrow> 'a memory" where
  "zeroMemory_loop mem q 0 = mem"
| "zeroMemory_loop mem q (Suc n) = zeroMemory_loop (mem(q := 0)) (Suc q) n"

definition runtime_zeroMemory ::
    "('a::len) memory \<Rightarrow> nat \<Rightarrow> uint64_t \<Rightarrow> 'a memory" where
  "runtime_zeroMemory mem p numWords = zeroMemory_loop mem p (unat numWords)"

text \<open>A memory holding the given words from address 0 on, and zero elsewhere.\<close>

definition memory_of :: "'a::len word list \<Rightarrow> 'a memory" where
  "memory_of ws = (\<lambda>i. if i < length ws then ws ! i else 0)"


section \<open>Array handles and heap headers\<close>

text \<open>
  The two structs of runtime.h, over the type \<open>'w\<close> of \<open>size_t\<close> (a \<open>'a word\<close> wherever they
  are used). Pointers are byte addresses held in a \<open>size_t\<close>; the null pointer is address 0.
  \<open>hasSubArrays\<close> is a bit-field of one bit and \<open>allocatedWords\<close> one of
  \<open>sizeof(size_t) * 8 - 1\<close> bits, read here as a natural number.
\<close>

record 'w runtime_array =
  data :: 'w
  numElements :: 'w

record 'w runtime_heapHeader =
  hasSubArrays :: bool
  allocatedWords :: nat
  backPointer :: 'w

definition NULL :: "'a::len word" where
  "NULL = 0"

definition runtime_makeEmptyArray :: "('a::len) word runtime_array" where
  "runtime_makeEmptyArray = \<lparr>data = NULL, numElements = 0\<rparr>"

text \<open>
  The header is the "2-word structure" of the comment in runtime.h (the build without
  \<open>RN_DEBUG\<close>). Arithmetic on a \<open>runtime_heapHeader *\<close> moves in steps of that size.
\<close>

definition sizeof_heapHeader :: "'a::len itself \<Rightarrow> nat" where
  "sizeof_heapHeader w = 2 * sizeof_size_t w"

definition heapHeader_ptr_add :: "'a::len word \<Rightarrow> int \<Rightarrow> 'a word" where
  "heapHeader_ptr_add p k = p + word_of_int (k * int (sizeof_heapHeader TYPE('a)))"

text \<open>\<open>runtime_getArrayHeader\<close>: \<open>((runtime_heapHeader*)(array->data)) - 1\<close>.\<close>

definition runtime_getArrayHeader :: "('a::len) word runtime_array \<Rightarrow> 'a word" where
  "runtime_getArrayHeader array = heapHeader_ptr_add (data array) (- 1)"


section \<open>Big integers\<close>

text \<open>
  runtime.h declares the big integer operations and defines none of them; their bodies are
  in a part of the runtime that is not among the sources. The definitions of this section
  follow the specification: a big integer has a bit width, a signed flag, a secret flag and
  a two's-complement bit pattern of that width. The packing of the three metadata fields and
  of the pattern into the words of an array is not modelled.
\<close>

text \<open>
  Modelled from the spec: the big integer value read by \<open>runtime_bigintWidth\<close>,
  \<open>runtime_bigintSigned\<close> and \<open>runtime_bigintSecret\<close> (declared only), with the
  two's-complement pattern as a natural number.
\<close>

record bigint =
  width :: nat
  isSigned :: bool
  secret :: bool
  magnitude :: nat

text \<open>
  Modelled from the spec: the invariant that the pattern has \<open>width\<close> bits. A width of
  zero holds no value and is excluded.
\<close>

definition bigintValid :: "bigint \<Rightarrow> bool" where
  "bigintValid b = (0 < width b \<and> magnitude b < 2 ^ width b)"

text \<open>
  Modelled from the spec: the integer a big integer stands for, reading the pattern as
  two's complement when the signed flag is set.
\<close>

definition bigintValue :: "bigint \<Rightarrow> int" where
  "bigintValue b =
     (if isSigned b \<and> 2 ^ (width b - 1) \<le> magnitude b
      then int (magnitude b) - 2 ^ width b
      else int (magnitude b))"

text \<open>
  Modelled from the spec: the big integer of a given width and flags whose pattern is the
  low \<open>width\<close> bits of an integer (what \<open>runtime_integerToBigint\<close> and the arithmetic
  operations store).
\<close>

definition makeBigint :: "nat \<Rightarrow> bool \<Rightarrow> bool \<Rightarrow> int \<Rightarrow> bigint" where
  "makeBigint w s sec v =
     \<lparr>width = w, isSigned = s, secret = sec, magnitude = nat (v mod 2 ^ w)\<rparr>"

text \<open>Modelled from the spec: whether an integer is representable at a width and signedness.\<close>

definition bigintFits :: "nat \<Rightarrow> bool \<Rightarrow> int \<Rightarrow> bool" where
  "bigintFits w s v =
     (if s then - (2 ^ (w - 1)) \<le> v \<and> v < 2 ^ (w - 1) else 0 \<le> v \<and> v < 2 ^ w)"

text \<open>
  Modelled from the spec: "non-truncating forms grow the result width as needed to avoid
  overflow". One more bit is enough for a quotient or a remainder.
\<close>

definition growWidth :: "nat \<Rightarrow> bool \<Rightarrow> int \<Rightarrow> nat" where
  "growWidth w s v = (if bigintFits w s v then w else Suc w)"

subsection \<open>Byte encodings\<close>

text \<open>
  Modelled from the spec: the little-endian bytes of a pattern, least significant byte
  first, and the number they stand for.
\<close>

fun bytesLE :: "nat \<Rightarrow> nat \<Rightarrow> 8 word list" where
  "bytesLE 0 n = []"
| "bytesLE (Suc k) n = word_of_nat (n mod 256) # bytesLE k (n div 256)"

fun natLE :: "8 word list \<Rightarrow> nat" where
  "natLE [] = 0"
| "natLE (b # bs) = unat b + 256 * natLE bs"

text \<open>
  Modelled from the spec: \<open>runtime_bigintEncodeLittleEndian\<close> and
  \<open>runtime_bigintEncodeBigEndian\<close> (declared only). The byte array holds the pattern in
  as many bytes as the width needs; the big-endian order is the reverse.
\<close>

definition runtime_bigintEncodeLittleEndian :: "bigint \<Rightarrow> 8 word list" where
  "runtime_bigintEncodeLittleEndian source =
     bytesLE ((width source + 7) div 8) (magnitude source)"

definition runtime_bigintEncodeBigEndian :: "bigint \<Rightarrow> 8 word list" where
  "runtime_bigintEncodeBigEndian source = rev (runtime_bigintEncodeLittleEndian source)"

text \<open>
  Modelled from the spec: \<open>runtime_bigintDecodeLittleEndian\<close> and
  \<open>runtime_bigintDecodeBigEndian\<close> (declared only). Width, signedness and secrecy are
  the caller's; the pattern is the low \<open>width\<close> bits of the number the bytes stand for.
\<close>

definition runtime_bigintDecodeLittleEndian ::
    "8 word list \<Rightarrow> nat \<Rightarrow> bool \<Rightarrow> bool \<Rightarrow> bigint" where
  "runtime_bigintDecodeLittleEndian byteArray w s sec =
     \<lparr>width = w, isSigned = s, secret = sec, magnitude = natLE byteArray mod 2 ^ w\<rparr>"

definition runtime_bigintDecodeBigEndian ::
    "8 word list \<Rightarrow> nat \<Rightarrow> bool \<Rightarrow> bool \<Rightarrow> bigint" where
  "runtime_bigintDecodeBigEndian byteArray w s sec =
     runtime_bigintDecodeLittleEndian (rev byteArray) w s sec"

subsection \<open>Arithmetic\<close>

text \<open>
  Modelled from the spec: the type of the result of a non-truncating operation on two
  operands: signed when an operand is, and wide enough for both operands and the result.
\<close>

definition bigintResult :: "bigint \<Rightarrow> bigint \<Rightarrow> int \<Rightarrow> bigint" where
  "bigintResult a b v =
     (let s = (isSigned a \<or> isSigned b);
          w = max (width a) (width b)
      in makeBigint (growWidth w s v) s (secret a \<or> secret b) v)"

text \<open>
  Modelled from the spec: \<open>runtime_bigintDiv\<close>, \<open>runtime_bigintMod\<close> and
  \<open>runtime_bigintDivRem\<close> (declared only). "Division and modulus use truncate-toward-zero
  semantics for signed operands (remainder takes the sign of the dividend); division or
  modulus by zero fails with DivideByZero."
\<close>

definition runtime_bigintDiv :: "bigint \<Rightarrow> bigint \<Rightarrow> runtime_error + bigint" where
  "runtime_bigintDiv a b =
     (if bigintValue b = 0 then Inl DivideByZero
      else Inr (bigintResult a b (bigintValue a sdiv bigintValue b)))"

definition runtime_bigintMod :: "bigint \<Rightarrow> bigint \<Rightarrow> runtime_error + bigint" where
  "runtime_bigintMod a b =
     (if bigintValue b = 0 then Inl DivideByZero
      else Inr (bigintResult a b (bigintValue a smod bigintValue b)))"

definition runtime_bigintDivRem :: "bigint \<Rightarrow> bigint \<Rightarrow> runtime_error + bigint \<times> bigint" where
  "runtime_bigintDivRem a b =
     (if bigintValue b = 0 then Inl DivideByZero
      else Inr (bigintResult a b (bigintValue a sdiv bigintValue b),
                bigintResult a b (bigintValue a smod bigintValue b)))"


section \<open>Properties of the word arithmetic helpers\<close>

text \<open>The two word sizes of runtime.h: the shift is the logarithm of the word size in bytes.\<close>

lemma sizeof_cases:
  assumes "LENGTH('a::len) = 32 \<or> LENGTH('a) = 64"
  shows "2 ^ unat (RN_SIZET_SHIFT TYPE('a)) = sizeof_size_t TYPE('a)"
    and "0 < sizeof_size_t TYPE('a)"
    and "sizeof_size_t TYPE('a) dvd 2 ^ LENGTH('a)"
    and "sizeof_size_t TYPE('a) < 2 ^ LENGTH('a)"
  using assms by (auto simp add: RN_SIZET_SHIFT_def sizeof_size_t_def)

lemma unat_SIZE_MAX: "unat (SIZE_MAX :: 'a::len word) = 2 ^ LENGTH('a) - 1"
  by (simp add: SIZE_MAX_def unsigned_minus_1_eq_mask mask_eq_exp_minus_1)

text \<open>Widening to \<open>uint64_t\<close> keeps the value.\<close>

lemma unat_ucast_64:
  fixes x :: "'a::len word"
  assumes "LENGTH('a) \<le> 64"
  shows "unat (ucast x :: uint64_t) = unat x"
proof -
  have "unat x < 2 ^ LENGTH('a)" by (rule unsigned_less)
  also have "(2::nat) ^ LENGTH('a) \<le> 2 ^ LENGTH(64)"
    using assms by (intro power_increasing) simp_all
  finally show ?thesis by (simp add: unsigned_ucast_eq take_bit_nat_eq_self)
qed

subsection \<open>Checked multiplication\<close>

text \<open>For a non-zero \<open>a\<close> the division check passes exactly when the product fits.\<close>

lemma mult_div_check:
  fixes a b :: "'a::len word"
  assumes "a \<noteq> 0"
  shows "((a * b) div a = b) \<longleftrightarrow> unat a * unat b < 2 ^ LENGTH('a)"
proof
  assume lt: "unat a * unat b < 2 ^ LENGTH('a)"
  have ua: "0 < unat a" using assms by (simp add: unat_gt_0)
  have "unat (a * b) = unat a * unat b" using lt by (simp add: unat_word_ariths)
  then have "unat ((a * b) div a) = unat b" using ua by (simp add: unat_div)
  then show "(a * b) div a = b" by (simp add: word_unat_eq_iff)
next
  assume eq: "(a * b) div a = b"
  show "unat a * unat b < 2 ^ LENGTH('a)"
  proof (rule ccontr)
    assume "\<not> unat a * unat b < 2 ^ LENGTH('a)"
    then have ge: "2 ^ LENGTH('a) \<le> unat a * unat b" by simp
    have ua: "0 < unat a" using assms by (simp add: unat_gt_0)
    have m: "unat (a * b) = (unat a * unat b) mod 2 ^ LENGTH('a)"
      by (simp add: unat_word_ariths)
    have "(unat a * unat b) mod 2 ^ LENGTH('a) \<le> unat a * unat b - 2 ^ LENGTH('a)"
      using ge by (metis le_mod_geq mod_less_eq_dividend)
    also have "\<dots> < unat a * unat b - unat a"
    proof (rule diff_less_mono2)
      show "unat a < 2 ^ LENGTH('a)" by (rule unsigned_less)
      then show "unat a < unat a * unat b" using ge by linarith
    qed
    finally have "unat (a * b) < (unat b - 1) * unat a" using m by (simp add: algebra_simps)
    then have "unat (a * b) div unat a < unat b - 1"
      by (rule less_mult_imp_div_less)
    then have "unat ((a * b) div a) \<noteq> unat b" by (simp add: unat_div)
    then show False using eq by simp
  qed
qed

lemma upper_bits_zero:
  fixes a :: "'a::len word"
  assumes "drop_bit k a = 0"
  shows "unat a < 2 ^ k"
proof -
  have "unat (drop_bit k a) = unat a div 2 ^ k"
    unfolding unat_drop_bit_eq by (simp add: drop_bit_eq_div)
  then have "unat a div 2 ^ k = 0" using assms by simp
  then show ?thesis by (simp add: div_eq_0_iff)
qed

text \<open>Two operands with zero upper halves have a product that fits, whatever the word size.\<close>

lemma half_words_product:
  fixes a b :: "'a::len word"
  assumes "drop_bit (push_bit 2 (sizeof_size_t TYPE('a))) a = 0"
    "drop_bit (push_bit 2 (sizeof_size_t TYPE('a))) b = 0"
  shows "unat a * unat b < 2 ^ LENGTH('a)"
proof -
  let ?k = "push_bit 2 (sizeof_size_t TYPE('a))"
  have k: "?k + ?k \<le> LENGTH('a)"
    by (simp add: sizeof_size_t_def push_bit_eq_mult)
  have "unat a * unat b < 2 ^ ?k * 2 ^ ?k"
    using upper_bits_zero [OF assms(1)] upper_bits_zero [OF assms(2)]
    by (rule mult_strict_mono') simp_all
  also have "\<dots> = 2 ^ (?k + ?k)" by (simp add: power_add)
  also have "\<dots> \<le> 2 ^ LENGTH('a)" using k by (rule power_increasing) simp
  finally show ?thesis .
qed

lemma multCheckForOverflow_eq:
  fixes a b :: "'a::len word"
  shows "runtime_multCheckForOverflow a b =
     (if unat a * unat b < 2 ^ LENGTH('a) then Inr (ucast (a * b))
      else Inl (Exception ''Integer overflow''))"
proof (cases "a = 0")
  case True
  then show ?thesis by (simp add: runtime_multCheckForOverflow_def)
next
  case False
  let ?k = "push_bit 2 (sizeof_size_t TYPE('a))"
  show ?thesis
  proof (cases "drop_bit ?k a = 0 \<and> drop_bit ?k b = 0")
    case True
    then have "unat a * unat b < 2 ^ LENGTH('a)" using half_words_product [of a b] by blast
    then show ?thesis
      using True by (simp add: runtime_multCheckForOverflow_def)
  next
    case F2: False
    then show ?thesis
      using False mult_div_check [OF False, of b]
      by (auto simp add: runtime_multCheckForOverflow_def Let_def)
  qed
qed

text \<open>
  Claim C1. For all native sizes \<open>a\<close> and \<open>b\<close>, of 32 or of 64 bits,
  \<open>runtime_multCheckForOverflow a b\<close> returns a value exactly when the mathematical product
  is below \<open>2 ^ LENGTH('a)\<close>, and the value returned is that product; it raises the exception
  "Integer overflow" exactly when the product is not below \<open>2 ^ LENGTH('a)\<close>. So a wrapped
  or saturated product is never returned. The fast path (\<open>a = 0\<close>, or both upper half-words
  zero) is only taken when the product fits.
\<close>

theorem multCheckForOverflow_correct:
  fixes a b :: "'a::len word"
  assumes "LENGTH('a) = 32 \<or> LENGTH('a) = 64"
  shows "((\<exists>r. runtime_multCheckForOverflow a b = Inr r \<and> unat r = unat a * unat b)
            \<longleftrightarrow> unat a * unat b < 2 ^ LENGTH('a))
       \<and> (\<forall>r. runtime_multCheckForOverflow a b = Inr r \<longrightarrow> unat r = unat a * unat b)
       \<and> (runtime_multCheckForOverflow a b = Inl (Exception ''Integer overflow'')
            \<longleftrightarrow> 2 ^ LENGTH('a) \<le> unat a * unat b)
       \<and> (a = 0 \<or> (drop_bit (push_bit 2 (sizeof_size_t TYPE('a))) a = 0
                    \<and> drop_bit (push_bit 2 (sizeof_size_t TYPE('a))) b = 0)
            \<longrightarrow> unat a * unat b < 2 ^ LENGTH('a))"
proof -
  have le: "LENGTH('a) \<le> 64" using assms by auto
  have u: "unat (ucast (a * b) :: uint64_t) = unat a * unat b"
    if "unat a * unat b < 2 ^ LENGTH('a)"
    using that unat_ucast_64 [OF le, of "a * b"] by (simp add: unat_word_ariths)
  have "(\<exists>r. runtime_multCheckForOverflow a b = Inr r \<and> unat r = unat a * unat b)
            \<longleftrightarrow> unat a * unat b < 2 ^ LENGTH('a)"
    using u by (auto simp add: multCheckForOverflow_eq)
  moreover have "\<forall>r. runtime_multCheckForOverflow a b = Inr r \<longrightarrow> unat r = unat a * unat b"
    using u by (auto simp add: multCheckForOverflow_eq split: if_splits)
  moreover have "runtime_multCheckForOverflow a b = Inl (Exception ''Integer overflow'')
            \<longleftrightarrow> 2 ^ LENGTH('a) \<le> unat a * unat b"
    by (auto simp add: multCheckForOverflow_eq)
  moreover have "a = 0 \<or> (drop_bit (push_bit 2 (sizeof_size_t TYPE('a))) a = 0
                    \<and> drop_bit (push_bit 2 (sizeof_size_t TYPE('a))) b = 0)
            \<longrightarrow> unat a * unat b < 2 ^ LENGTH('a)"
    using half_words_product [of a b] by auto
  ultimately show ?thesis by blast
qed

theorem multCheckForOverflow_correct_witness:
  "runtime_multCheckForOverflow (3 :: 64 word) 5 = Inr 15
   \<and> runtime_multCheckForOverflow (2 ^ 63 :: 64 word) 2 = Inl (Exception ''Integer overflow'')
   \<and> runtime_multCheckForOverflow (65535 :: 32 word) 65537 = Inr 4294967295
   \<and> runtime_multCheckForOverflow (65536 :: 32 word) 65536 = Inl (Exception ''Integer overflow'')"
proof -
  have "(\<exists>r. runtime_multCheckForOverflow (3 :: 64 word) 5 = Inr r \<and> unat r = 15)"
    using multCheckForOverflow_correct [where 'a = 64, of 3 5] by simp
  then have a: "runtime_multCheckForOverflow (3 :: 64 word) 5 = Inr 15"
    by (auto simp add: word_unat_eq_iff)
  have b: "runtime_multCheckForOverflow (2 ^ 63 :: 64 word) 2
             = Inl (Exception ''Integer overflow'')"
    using multCheckForOverflow_correct [where 'a = 64, of "2 ^ 63" 2] by simp
  have "(\<exists>r. runtime_multCheckForOverflow (65535 :: 32 word) 65537 = Inr r
              \<and> unat r = 4294967295)"
    using multCheckForOverflow_correct [where 'a = 32, of 65535 65537] by simp
  then have c: "runtime_multCheckForOverflow (65535 :: 32 word) 65537 = Inr 4294967295"
    by (auto simp add: word_unat_eq_iff)
  have d: "runtime_multCheckForOverflow (65536 :: 32 word) 65536
             = Inl (Exception ''Integer overflow'')"
    using multCheckForOverflow_correct [where 'a = 32, of 65536 65536] by simp
  show ?thesis using a b c d by simp
qed

subsection \<open>Rounding bytes up to words\<close>

lemma unat_bytesToWords:
  fixes n :: "'a::len word"
  assumes "LENGTH('a) = 32 \<or> LENGTH('a) = 64"
  shows "unat (runtime_bytesToWords n)
           = ((unat n + (sizeof_size_t TYPE('a) - 1)) mod 2 ^ LENGTH('a))
               div sizeof_size_t TYPE('a)"
proof -
  note S = sizeof_cases [OF assms]
  have le: "LENGTH('a) \<le> 64" using assms by auto
  let ?y = "n + word_of_nat (sizeof_size_t TYPE('a)) - 1"
  have y: "?y = n + word_of_nat (sizeof_size_t TYPE('a) - 1)"
    using S(2) by (simp add: of_nat_diff)
  have "unat (word_of_nat (sizeof_size_t TYPE('a) - 1) :: 'a word)
          = sizeof_size_t TYPE('a) - 1"
    using S(4) by (simp add: unat_of_nat)
  then have u: "unat ?y = (unat n + (sizeof_size_t TYPE('a) - 1)) mod 2 ^ LENGTH('a)"
    unfolding y by (simp add: unat_word_ariths)
  have "unat (runtime_bytesToWords n) = unat (drop_bit (unat (RN_SIZET_SHIFT TYPE('a))) ?y)"
    by (simp add: runtime_bytesToWords_def unat_ucast_64 [OF le])
  also have "\<dots> = unat ?y div 2 ^ unat (RN_SIZET_SHIFT TYPE('a))"
    unfolding unat_drop_bit_eq by (simp add: drop_bit_eq_div)
  finally show ?thesis using u S(1) by simp
qed

text \<open>
  Claim C10. \<open>runtime_bytesToWords\<close> adds with wrap-around, for 32-bit and for 64-bit words:
  up to \<open>SIZE_MAX - (sizeof(size_t) - 1)\<close> it returns the ceiling of
  \<open>numBytes / sizeof(size_t)\<close>; for every larger value the sum wraps modulo
  \<open>2 ^ LENGTH('a)\<close>, and the result, computed from the wrapped sum, is strictly smaller than
  the ceiling. The function has no failure path, so no error is raised.
\<close>

theorem bytesToWords_wraps:
  fixes n :: "'a::len word"
  assumes "LENGTH('a) = 32 \<or> LENGTH('a) = 64"
  shows "if unat n \<le> unat (SIZE_MAX :: 'a word) - (sizeof_size_t TYPE('a) - 1)
    then unat (runtime_bytesToWords n)
           = (unat n + (sizeof_size_t TYPE('a) - 1)) div sizeof_size_t TYPE('a)
    else unat (runtime_bytesToWords n)
           = (unat n + (sizeof_size_t TYPE('a) - 1) - 2 ^ LENGTH('a))
               div sizeof_size_t TYPE('a)
       \<and> unat (runtime_bytesToWords n)
           < (unat n + (sizeof_size_t TYPE('a) - 1)) div sizeof_size_t TYPE('a)"
proof -
  note S = sizeof_cases [OF assms]
  let ?sz = "sizeof_size_t TYPE('a)"
  let ?M = "(2::nat) ^ LENGTH('a)"
  have lt: "unat n < ?M" by (rule unsigned_less)
  show ?thesis
  proof (cases "unat n \<le> ?M - 1 - (?sz - 1)")
    case True
    then have "unat n + (?sz - 1) < ?M" using S(4) by linarith
    then show ?thesis using True by (simp add: unat_bytesToWords [OF assms] unat_SIZE_MAX)
  next
    case False
    then have ge: "?M \<le> unat n + (?sz - 1)" by linarith
    have "unat n + (?sz - 1) - ?M < ?M" using lt S(4) by linarith
    then have m: "(unat n + (?sz - 1)) mod ?M = unat n + (?sz - 1) - ?M"
      using ge by (metis le_mod_geq mod_less)
    obtain q where q: "?M = ?sz * q" using S(3) by (auto simp add: dvd_def)
    have qpos: "0 < q" using q by (metis gr0I mult_0_right power_not_zero zero_neq_numeral)
    have "(unat n + (?sz - 1)) div ?sz = (unat n + (?sz - 1) - ?M + ?sz * q) div ?sz"
      using ge q by simp
    also have "\<dots> = (unat n + (?sz - 1) - ?M) div ?sz + q"
      using S(2) by simp
    finally have "(unat n + (?sz - 1) - ?M) div ?sz < (unat n + (?sz - 1)) div ?sz"
      using qpos by linarith
    then show ?thesis
      using False m by (simp add: unat_bytesToWords [OF assms] unat_SIZE_MAX)
  qed
qed

theorem bytesToWords_wraps_witness:
  "unat (runtime_bytesToWords (16 :: 64 word)) = 2
   \<and> unat (runtime_bytesToWords (17 :: 64 word)) = 3
   \<and> unat (runtime_bytesToWords (2 ^ 64 - 8 :: 64 word)) = 2 ^ 61 - 1
   \<and> unat (runtime_bytesToWords (2 ^ 64 - 7 :: 64 word)) = 0
   \<and> unat (runtime_bytesToWords (2 ^ 32 - 1 :: 32 word)) = 0"
  using bytesToWords_wraps [where 'a = 64, of 16]
    bytesToWords_wraps [where 'a = 64, of 17]
    bytesToWords_wraps [where 'a = 64, of "2 ^ 64 - 8"]
    bytesToWords_wraps [where 'a = 64, of "2 ^ 64 - 7"]
    bytesToWords_wraps [where 'a = 32, of "2 ^ 32 - 1"]
  by (simp add: sizeof_size_t_def unat_SIZE_MAX)

text \<open>In the range where the sum does not wrap, the words returned cover the bytes.\<close>

lemma bytesToWords_covers:
  fixes n :: "'a::len word"
  assumes "LENGTH('a) = 32 \<or> LENGTH('a) = 64"
    and "unat n \<le> unat (SIZE_MAX :: 'a word) - (sizeof_size_t TYPE('a) - 1)"
  shows "unat n \<le> unat (runtime_bytesToWords n) * sizeof_size_t TYPE('a)"
proof -
  note S = sizeof_cases [OF assms(1)]
  let ?sz = "sizeof_size_t TYPE('a)"
  have "unat n + (?sz - 1) < 2 ^ LENGTH('a)"
    using assms(2) S(4) by (simp add: unat_SIZE_MAX)
  then have r: "unat (runtime_bytesToWords n) = (unat n + (?sz - 1)) div ?sz"
    by (simp add: unat_bytesToWords [OF assms(1)])
  have "unat n + (?sz - 1) < ((unat n + (?sz - 1)) div ?sz) * ?sz + ?sz"
    using S(2) by (metis add.commute div_mult_mod_eq add_less_cancel_left mod_less_divisor
        mult.commute)
  then show ?thesis unfolding r using S(2) by linarith
qed

text \<open>Four elements of four bytes take two words on a 64-bit system.\<close>

lemma bytesToWords_4_by_4:
  "runtime_multCheckForOverflow (4 :: 64 word) 4 = Inr 16
   \<and> runtime_bytesToWords (16 :: 64 word) = 2"
  by (simp add: multCheckForOverflow_eq runtime_bytesToWords_def RN_SIZET_SHIFT_def
      sizeof_size_t_def drop_bit_eq_div)

text \<open>
  Claim C2. The claim asks that for every byte count up to the native size limit
  \<open>runtime_bytesToWords numBytes * sizeof(size_t) \<ge> numBytes\<close>, the word count being the
  ceiling of \<open>numBytes / sizeof(size_t)\<close>. The code does not do this at the top of the
  range: on a 64-bit system an element count of \<open>SIZE_MAX\<close> with element size 1 passes the
  overflow check of the multiplication, and \<open>runtime_bytesToWords\<close> then returns 0 words,
  which cover 0 bytes, where the ceiling is \<open>2 ^ 61\<close> words.
\<close>

theorem bytesToWords_SIZE_MAX:
  "runtime_multCheckForOverflow (SIZE_MAX :: 64 word) 1 = Inr SIZE_MAX
   \<and> runtime_bytesToWords (SIZE_MAX :: 64 word) = 0
   \<and> unat (runtime_bytesToWords (SIZE_MAX :: 64 word)) * sizeof_size_t TYPE(64)
       < unat (SIZE_MAX :: 64 word)
   \<and> (unat (SIZE_MAX :: 64 word) + (sizeof_size_t TYPE(64) - 1)) div sizeof_size_t TYPE(64)
       = 2 ^ 61"
proof -
  have "runtime_multCheckForOverflow (SIZE_MAX :: 64 word) 1 = Inr SIZE_MAX"
    by (simp add: multCheckForOverflow_eq unat_SIZE_MAX)
  moreover have "runtime_bytesToWords (SIZE_MAX :: 64 word) = 0"
    by (simp add: runtime_bytesToWords_def RN_SIZET_SHIFT_def sizeof_size_t_def
        SIZE_MAX_def drop_bit_eq_div)
  ultimately show ?thesis
    by (simp add: unat_SIZE_MAX sizeof_size_t_def)
qed

section \<open>Properties of the word copy\<close>

text \<open>Addresses outside the destination region keep their contents.\<close>

lemma copyWords_loop_frame:
  "a < dest \<or> dest + n \<le> a \<Longrightarrow> copyWords_loop mem dest src n a = mem a"
  by (induction n arbitrary: mem dest src) auto

text \<open>
  The forward loop copies faithfully when the destination does not start above the source,
  or when the destination starts at or after the end of the source region.
\<close>

lemma copyWords_loop_copies:
  assumes "dest \<le> src \<or> src + n \<le> dest" "i < n"
  shows "copyWords_loop mem dest src n (dest + i) = mem (src + i)"
  using assms
proof (induction n arbitrary: mem dest src i)
  case 0
  then show ?case by simp
next
  case (Suc n)
  show ?case
  proof (cases i)
    case 0
    then show ?thesis by (simp add: copyWords_loop_frame)
  next
    case (Suc j)
    have c: "Suc dest \<le> Suc src \<or> Suc src + n \<le> Suc dest" using Suc.prems(1) by auto
    have j: "j < n" using Suc.prems(2) Suc by simp
    have ne: "src + i \<noteq> dest" using Suc.prems Suc by auto
    have "copyWords_loop (mem(dest := mem src)) (Suc dest) (Suc src) n (Suc dest + j)
          = (mem(dest := mem src)) (Suc src + j)"
      by (rule Suc.IH [OF c j])
    then show ?thesis using ne Suc by simp
  qed
qed

lemma runtime_copyWords_copies:
  assumes "dest \<le> src \<or> src + unat numWords \<le> dest" "i < unat numWords"
  shows "runtime_copyWords mem dest src numWords (dest + i) = mem (src + i)"
  using assms by (simp add: runtime_copyWords_def copyWords_loop_copies)

text \<open>
  Claim C9. The claim asks that after \<open>runtime_copyWords dest src n\<close> the words
  \<open>dest[0..n)\<close> equal the words \<open>src[0..n)\<close> held before the call, also when the regions
  overlap with \<open>src\<close> below \<open>dest\<close>. The loop copies upwards from the first word, so in
  that overlap it reads words it has already overwritten: with the words 1, 2, 3, 4 at
  addresses 0 to 3, copying 3 words from address 0 to address 1 leaves 1, 1, 1 at
  addresses 1 to 3, where the source held 1, 2, 3.
\<close>

theorem copyWords_overlap_src_below_dest:
  "map (memory_of [1, 2, 3, 4 :: 64 word]) [0, 1, 2] = [1, 2, 3]
   \<and> map (runtime_copyWords (memory_of [1, 2, 3, 4 :: 64 word]) 1 0 3) [1, 2, 3] = [1, 1, 1]"
  by code_simp

section \<open>Properties of the big integer model\<close>

subsection \<open>Values and patterns\<close>

lemma bigintValue_makeBigint:
  assumes "0 < w" "bigintFits w s v"
  shows "bigintValue (makeBigint w s sec v) = v"
proof (cases s)
  case False
  then have "0 \<le> v" "v < 2 ^ w" using assms by (simp_all add: bigintFits_def)
  then show ?thesis using False by (simp add: bigintValue_def makeBigint_def)
next
  case True
  have p: "(2::int) ^ w = 2 * 2 ^ (w - 1)" using assms(1) by (cases w) simp_all
  have r: "- (2 ^ (w - 1)) \<le> v" "v < 2 ^ (w - 1)"
    using assms True by (simp_all add: bigintFits_def)
  show ?thesis
  proof (cases "0 \<le> v")
    case nonneg: True
    then have m: "v mod 2 ^ w = v" using r p by simp
    have "\<not> (2::nat) ^ (w - 1) \<le> nat v" using r nonneg
      by (metis not_le nat_less_iff of_nat_numeral of_nat_power)
    then show ?thesis using True m nonneg by (simp add: bigintValue_def makeBigint_def)
  next
    case neg: False
    have "(v + 2 ^ w) mod 2 ^ w = v + 2 ^ w"
      using r p neg by (intro mod_pos_pos_trivial) simp_all
    then have m: "v mod 2 ^ w = v + 2 ^ w" by simp
    have "int (2 ^ (w - 1)) \<le> v + 2 ^ w" using r p by simp
    then have "(2::nat) ^ (w - 1) \<le> nat (v + 2 ^ w)" by linarith
    moreover have "0 \<le> v + 2 ^ w" using r p by simp
    ultimately show ?thesis using True m by (simp add: bigintValue_def makeBigint_def)
  qed
qed

lemma bigintValue_bounds:
  assumes "bigintValid a"
  shows "\<bar>bigintValue a\<bar> < 2 ^ width a" "\<not> isSigned a \<Longrightarrow> 0 \<le> bigintValue a"
proof -
  have m: "int (magnitude a) < 2 ^ width a" using assms
    by (metis bigintValid_def of_nat_less_iff of_nat_numeral of_nat_power)
  have "0 < magnitude a" if "2 ^ (width a - 1) \<le> magnitude a"
    using that by (metis less_le_trans zero_less_numeral zero_less_power)
  then show "\<bar>bigintValue a\<bar> < 2 ^ width a"
    using m by (auto simp add: bigintValue_def)
  show "\<not> isSigned a \<Longrightarrow> 0 \<le> bigintValue a" by (simp add: bigintValue_def)
qed

lemma bigintFits_bigintValue:
  assumes "bigintValid a"
  shows "bigintFits (width a) (isSigned a) (bigintValue a)"
proof -
  have w: "0 < width a" and m: "magnitude a < 2 ^ width a"
    using assms by (simp_all add: bigintValid_def)
  have p: "(2::nat) ^ width a = 2 * 2 ^ (width a - 1)" using w by (cases "width a") simp_all
  have mi: "int (magnitude a) < 2 * 2 ^ (width a - 1)" using m p
    by (metis of_nat_less_iff of_nat_numeral of_nat_power of_nat_mult)
  have pi: "(2::int) ^ width a = 2 * 2 ^ (width a - 1)" using w by (cases "width a") simp_all
  show ?thesis
  proof (cases "isSigned a \<and> 2 ^ (width a - 1) \<le> magnitude a")
    case True
    then have "int (2 ^ (width a - 1)) \<le> int (magnitude a)" by (simp only: of_nat_le_iff)
    then show ?thesis using True mi pi by (simp add: bigintFits_def bigintValue_def)
  next
    case False
    then show ?thesis using mi pi
      by (auto simp add: bigintFits_def bigintValue_def not_le simp flip: of_nat_less_iff)
  qed
qed

text \<open>
  The result of a non-truncating operation holds its value exactly when the value is no
  larger in absolute value than the first operand, and is not negative for unsigned operands.
\<close>

lemma bigintValue_bigintResult:
  assumes "bigintValid a" "bigintValid b" "\<bar>x\<bar> \<le> \<bar>bigintValue a\<bar>"
    and "\<not> isSigned a \<Longrightarrow> \<not> isSigned b \<Longrightarrow> 0 \<le> x"
  shows "bigintValue (bigintResult a b x) = x"
proof -
  let ?w = "max (width a) (width b)"
  let ?s = "isSigned a \<or> isSigned b"
  have w: "0 < ?w" using assms(1) by (simp add: bigintValid_def max_def)
  have "(2::int) ^ width a \<le> 2 ^ ?w" by (simp add: power_increasing)
  then have lt: "\<bar>x\<bar> < 2 ^ ?w" using bigintValue_bounds(1) [OF assms(1)] assms(3) by linarith
  have "bigintFits (growWidth ?w ?s x) ?s x"
  proof (cases "bigintFits ?w ?s x")
    case True
    then show ?thesis by (simp add: growWidth_def)
  next
    case False
    have s: "?s"
    proof (rule ccontr)
      assume n: "\<not> ?s"
      then have "0 \<le> x" using assms(4) by simp
      then have "bigintFits ?w ?s x" using lt n by (simp add: bigintFits_def)
      then show False using False by simp
    qed
    have "bigintFits (Suc ?w) True x" using lt by (simp add: bigintFits_def abs_less_iff)
    then show ?thesis using False s by (simp add: growWidth_def)
  qed
  moreover have "0 < growWidth ?w ?s x" using w by (simp add: growWidth_def)
  ultimately show ?thesis
    by (simp add: bigintResult_def Let_def bigintValue_makeBigint)
qed

subsection \<open>Byte encodings\<close>

lemma natLE_bytesLE: "natLE (bytesLE k n) = n mod 256 ^ k"
proof (induction k arbitrary: n)
  case 0
  then show ?case by simp
next
  case (Suc k)
  have b: "unat (word_of_nat (n mod 256) :: 8 word) = n mod 256"
    by (simp add: unat_of_nat)
  have "natLE (bytesLE (Suc k) n) = n mod 256 + 256 * ((n div 256) mod 256 ^ k)"
    using Suc.IH [of "n div 256"] b by simp
  also have "\<dots> = n mod (256 * 256 ^ k)"
    by (simp add: mod_mult2_eq)
  finally show ?case by simp
qed

lemma length_bytesLE: "length (bytesLE k n) = k"
  by (induction k arbitrary: n) auto

lemma width_in_bytes: "(2::nat) ^ w \<le> 256 ^ ((w + 7) div 8)"
proof -
  have "(256::nat) ^ ((w + 7) div 8) = 2 ^ (8 * ((w + 7) div 8))"
    by (simp add: power_mult)
  moreover have "w \<le> 8 * ((w + 7) div 8)" by arith
  ultimately show ?thesis by (simp add: power_increasing)
qed

lemma decode_encode_LE:
  assumes "bigintValid v"
  shows "runtime_bigintDecodeLittleEndian (runtime_bigintEncodeLittleEndian v)
           (width v) (isSigned v) (secret v) = v"
proof -
  have m: "magnitude v < 2 ^ width v" using assms by (simp add: bigintValid_def)
  then have "magnitude v < 256 ^ ((width v + 7) div 8)"
    using width_in_bytes [of "width v"] by linarith
  then have "natLE (bytesLE ((width v + 7) div 8) (magnitude v)) = magnitude v"
    by (simp add: natLE_bytesLE)
  then show ?thesis using m
    by (simp add: runtime_bigintDecodeLittleEndian_def runtime_bigintEncodeLittleEndian_def)
qed

text \<open>
  Claim C3. For every big integer \<open>v\<close> (any width, signedness and secrecy), decoding the
  little-endian encoding of \<open>v\<close> at \<open>v\<close>'s width, signedness and secrecy gives \<open>v\<close> back,
  field for field and bit for bit, and so does the big-endian pair. The unsigned 16-bit
  value 300 encodes little-endian to the bytes 0x2C, 0x01, and these bytes decode at width
  16, unsigned, to 300.
\<close>

theorem bigint_encode_decode_roundtrip:
  assumes "bigintValid v"
  shows "runtime_bigintDecodeLittleEndian (runtime_bigintEncodeLittleEndian v)
           (width v) (isSigned v) (secret v) = v
       \<and> runtime_bigintDecodeBigEndian (runtime_bigintEncodeBigEndian v)
           (width v) (isSigned v) (secret v) = v
       \<and> length (runtime_bigintEncodeLittleEndian v) = (width v + 7) div 8
       \<and> runtime_bigintEncodeLittleEndian (makeBigint 16 False False 300) = [0x2C, 0x01]
       \<and> runtime_bigintDecodeLittleEndian [0x2C, 0x01] 16 False False
           = makeBigint 16 False False 300
       \<and> bigintValue (makeBigint 16 False False 300) = 300"
proof -
  have "runtime_bigintEncodeLittleEndian (makeBigint 16 False False 300) = [0x2C, 0x01]"
    by code_simp
  moreover have "runtime_bigintDecodeLittleEndian [0x2C, 0x01] 16 False False
                   = makeBigint 16 False False 300"
    by (simp add: runtime_bigintDecodeLittleEndian_def makeBigint_def)
  moreover have "bigintValue (makeBigint 16 False False 300) = 300"
    by (simp add: bigintValue_def makeBigint_def)
  ultimately show ?thesis
    using decode_encode_LE [OF assms]
    by (simp add: runtime_bigintDecodeBigEndian_def runtime_bigintEncodeBigEndian_def
        runtime_bigintEncodeLittleEndian_def length_bytesLE)
qed

theorem bigint_encode_decode_roundtrip_witness:
  "bigintValid (makeBigint 12 True False (- 2))
   \<and> bigintValue (makeBigint 12 True False (- 2)) = - 2
   \<and> runtime_bigintEncodeLittleEndian (makeBigint 12 True False (- 2)) = [0xFE, 0x0F]
   \<and> runtime_bigintEncodeBigEndian (makeBigint 12 True False (- 2)) = [0x0F, 0xFE]
   \<and> runtime_bigintDecodeLittleEndian [0xFE, 0x0F] 12 True False
       = makeBigint 12 True False (- 2)
   \<and> runtime_bigintDecodeBigEndian [0x0F, 0xFE] 12 True False
       = makeBigint 12 True False (- 2)"
proof -
  let ?v = "makeBigint 12 True False (- 2)"
  have f: "width ?v = 12" "isSigned ?v = True" "secret ?v = False"
    by (simp_all add: makeBigint_def)
  have v: "bigintValid ?v"
    by (simp add: bigintValid_def makeBigint_def)
  have e: "runtime_bigintEncodeLittleEndian ?v = [0xFE, 0x0F]"
    by code_simp
  have b: "runtime_bigintEncodeBigEndian ?v = [0x0F, 0xFE]"
    by (simp add: runtime_bigintEncodeBigEndian_def e)
  have x: "bigintValue ?v = - 2"
    by (simp add: bigintValue_def makeBigint_def)
  show ?thesis
    using v e b x bigint_encode_decode_roundtrip [OF v] by (simp add: f)
qed

subsection \<open>Division and modulus\<close>

lemma sdiv_abs: "\<bar>(k::int) sdiv l\<bar> = \<bar>k\<bar> div \<bar>l\<bar>"
proof -
  have "0 \<le> \<bar>k\<bar> div \<bar>l\<bar>" by (simp add: div_int_pos_iff)
  then show ?thesis
    by (cases "k = 0"; cases "l = 0") (simp_all add: signed_divide_int_def abs_mult)
qed

lemma smod_abs: "\<bar>(k::int) smod l\<bar> = \<bar>k\<bar> mod \<bar>l\<bar>"
proof -
  have "0 \<le> \<bar>k\<bar> mod \<bar>l\<bar>" by (cases "l = 0") simp_all
  then show ?thesis
    by (cases "k = 0") (simp_all add: signed_modulo_int_def abs_mult)
qed

lemma smod_sign: "(k::int) smod l = 0 \<or> sgn (k smod l) = sgn k"
proof -
  have "0 \<le> \<bar>k\<bar> mod \<bar>l\<bar>" by (cases "l = 0") simp_all
  then have "\<bar>k\<bar> mod \<bar>l\<bar> = 0 \<or> sgn (\<bar>k\<bar> mod \<bar>l\<bar>) = 1" by (auto simp add: sgn_if)
  then show ?thesis by (auto simp add: signed_modulo_int_def sgn_mult)
qed

text \<open>
  Claim C4. For all big integers \<open>a\<close> and \<open>b\<close>: when \<open>b\<close> is zero, \<open>runtime_bigintDiv\<close>,
  \<open>runtime_bigintMod\<close> and \<open>runtime_bigintDivRem\<close> fail with DivideByZero; otherwise they
  return a quotient \<open>q\<close> and a remainder \<open>r\<close> (the same from \<open>runtime_bigintDivRem\<close>) with
  \<open>a = b * q + r\<close>, the quotient truncated toward zero (\<open>|q| = |a| div |b|\<close>, \<open>|r| < |b|\<close>),
  and the remainder zero or of the sign of the dividend \<open>a\<close>.
\<close>

theorem bigint_div_mod_identity:
  assumes "bigintValid a" "bigintValid b"
  shows "if bigintValue b = 0
     then runtime_bigintDiv a b = Inl DivideByZero
        \<and> runtime_bigintMod a b = Inl DivideByZero
        \<and> runtime_bigintDivRem a b = Inl DivideByZero
     else \<exists>q r. runtime_bigintDiv a b = Inr q
        \<and> runtime_bigintMod a b = Inr r
        \<and> runtime_bigintDivRem a b = Inr (q, r)
        \<and> bigintValue a = bigintValue b * bigintValue q + bigintValue r
        \<and> \<bar>bigintValue r\<bar> < \<bar>bigintValue b\<bar>
        \<and> (bigintValue r = 0 \<or> sgn (bigintValue r) = sgn (bigintValue a))
        \<and> \<bar>bigintValue q\<bar> = \<bar>bigintValue a\<bar> div \<bar>bigintValue b\<bar>"
proof (cases "bigintValue b = 0")
  case True
  then show ?thesis
    by (simp add: runtime_bigintDiv_def runtime_bigintMod_def runtime_bigintDivRem_def)
next
  case False
  let ?va = "bigintValue a" and ?vb = "bigintValue b"
  let ?q = "bigintResult a b (?va sdiv ?vb)"
  let ?r = "bigintResult a b (?va smod ?vb)"
  have un: "0 \<le> ?va" "0 \<le> ?vb" if "\<not> isSigned a" "\<not> isSigned b"
    using that bigintValue_bounds(2) [OF assms(1)] bigintValue_bounds(2) [OF assms(2)]
    by simp_all
  have "\<bar>?va\<bar> div \<bar>?vb\<bar> \<le> \<bar>?va\<bar>"
    by (cases "?va = 0") (simp_all add: int_div_le_self)
  then have ql: "\<bar>?va sdiv ?vb\<bar> \<le> \<bar>?va\<bar>" by (simp add: sdiv_abs)
  have "\<bar>?va\<bar> mod \<bar>?vb\<bar> \<le> \<bar>?va\<bar>" by (simp add: zmod_le_nonneg_dividend)
  then have rl: "\<bar>?va smod ?vb\<bar> \<le> \<bar>?va\<bar>" by (simp add: smod_abs)
  have qn: "0 \<le> ?va sdiv ?vb" if "\<not> isSigned a" "\<not> isSigned b"
    using un [OF that] by (simp add: signed_divide_int_def sgn_if div_int_pos_iff)
  have rn: "0 \<le> ?va smod ?vb" if "\<not> isSigned a" "\<not> isSigned b"
    using un [OF that] False by (simp add: signed_modulo_int_def sgn_if)
  have vq: "bigintValue ?q = ?va sdiv ?vb"
    using assms ql qn by (rule bigintValue_bigintResult)
  have vr: "bigintValue ?r = ?va smod ?vb"
    using assms rl rn by (rule bigintValue_bigintResult)
  have id: "?va = ?vb * (?va sdiv ?vb) + ?va smod ?vb" by (simp add: mult_sdiv_smod_eq)
  have lt: "\<bar>?va smod ?vb\<bar> < \<bar>?vb\<bar>" using False by (simp add: smod_abs)
  have "runtime_bigintDiv a b = Inr ?q \<and> runtime_bigintMod a b = Inr ?r
        \<and> runtime_bigintDivRem a b = Inr (?q, ?r)"
    using False
    by (simp add: runtime_bigintDiv_def runtime_bigintMod_def runtime_bigintDivRem_def)
  moreover have "?va = ?vb * bigintValue ?q + bigintValue ?r" using id vq vr by simp
  moreover have "\<bar>bigintValue ?r\<bar> < \<bar>?vb\<bar>" using lt vr by simp
  moreover have "bigintValue ?r = 0 \<or> sgn (bigintValue ?r) = sgn ?va"
    using smod_sign [of ?va ?vb] vr by simp
  moreover have "\<bar>bigintValue ?q\<bar> = \<bar>?va\<bar> div \<bar>?vb\<bar>" using vq by (simp add: sdiv_abs)
  ultimately show ?thesis using False by auto
qed

theorem bigint_div_mod_identity_witness:
  "bigintValid (makeBigint 8 True False (- 7))
   \<and> bigintValid (makeBigint 8 True False 2)
   \<and> bigintValid (makeBigint 8 True False 0)
   \<and> bigintValue (makeBigint 8 True False (- 7)) = - 7
   \<and> bigintValue (makeBigint 8 True False 2) = 2
   \<and> bigintValue (makeBigint 8 True False 0) = 0
   \<and> runtime_bigintDiv (makeBigint 8 True False (- 7)) (makeBigint 8 True False 2)
       = Inr (makeBigint 8 True False (- 3))
   \<and> bigintValue (makeBigint 8 True False (- 3)) = - 3
   \<and> runtime_bigintMod (makeBigint 8 True False (- 7)) (makeBigint 8 True False 2)
       = Inr (makeBigint 8 True False (- 1))
   \<and> bigintValue (makeBigint 8 True False (- 1)) = - 1
   \<and> runtime_bigintDivRem (makeBigint 8 True False (- 7)) (makeBigint 8 True False 2)
       = Inr (makeBigint 8 True False (- 3), makeBigint 8 True False (- 1))
   \<and> runtime_bigintDiv (makeBigint 8 True False (- 7)) (makeBigint 8 True False 0)
       = Inl DivideByZero
   \<and> runtime_bigintMod (makeBigint 8 True False (- 7)) (makeBigint 8 True False 0)
       = Inl DivideByZero"
proof -
  let ?a = "makeBigint 8 True False (- 7)"
  let ?b = "makeBigint 8 True False 2"
  let ?z = "makeBigint 8 True False 0"
  have v: "bigintValid ?a" "bigintValid ?b" "bigintValid ?z"
    by (simp_all add: bigintValid_def makeBigint_def)
  have x: "bigintValue ?a = - 7" "bigintValue ?b = 2" "bigintValue ?z = 0"
    "bigintValue (makeBigint 8 True False (- 3)) = - 3"
    "bigintValue (makeBigint 8 True False (- 1)) = - 1"
    by (simp_all add: bigintValue_def makeBigint_def)
  have r: "bigintResult ?a ?b (- 3) = makeBigint 8 True False (- 3)"
    "bigintResult ?a ?b (- 1) = makeBigint 8 True False (- 1)"
    by (simp_all add: bigintResult_def growWidth_def bigintFits_def makeBigint_def)
  have q: "(- 7 :: int) sdiv 2 = - 3" "(- 7 :: int) smod 2 = - 1"
    by (simp_all add: signed_divide_int_def signed_modulo_int_def)
  have e: "runtime_bigintDiv ?a ?b = Inr (makeBigint 8 True False (- 3))"
    "runtime_bigintMod ?a ?b = Inr (makeBigint 8 True False (- 1))"
    "runtime_bigintDivRem ?a ?b
       = Inr (makeBigint 8 True False (- 3), makeBigint 8 True False (- 1))"
    by (simp_all add: runtime_bigintDiv_def runtime_bigintMod_def runtime_bigintDivRem_def
        x q r)
  show ?thesis
    using v e x bigint_div_mod_identity [OF v(1) v(2)] bigint_div_mod_identity [OF v(1) v(3)]
    by simp
qed

section \<open>Properties of the array handle helpers\<close>

text \<open>The empty handle has the null pointer and no elements.\<close>

lemma makeEmptyArray_empty:
  "data runtime_makeEmptyArray = NULL \<and> numElements runtime_makeEmptyArray = 0"
  by (simp add: runtime_makeEmptyArray_def)

text \<open>The header found by \<open>runtime_getArrayHeader\<close> ends where the data starts.\<close>

lemma getArrayHeader_next:
  "heapHeader_ptr_add (runtime_getArrayHeader array) 1 = data array"
  by (simp add: runtime_getArrayHeader_def heapHeader_ptr_add_def)

end
